theory Spec2Isabelle
  imports Complex_Main "HOL-Library.Word" "HOL-Library.Signed_Division" "HOL-Library.Log_Nat"
begin

unbundle bit_operations_syntax

section \<open>Single-precision numbers\<close>

text \<open>
  The relative coordinates of a recorded action are C++ \<open>float\<close>s. A value of that type
  is a finite number \<open>m * 2 ^ e\<close> with an integer significand of at most 24 bits and an
  exponent between \<open>-149\<close> and \<open>104\<close>, an infinity, or a NaN. The sign of a zero is
  not kept: the only consumer of a product here is the conversion to \<open>int\<close>, which maps
  both zeros to 0.
\<close>

datatype f32 = Fin int int | Infty bool | NaN

definition valid_f32 :: "f32 \<Rightarrow> bool" where
  "valid_f32 x =
     (case x of Fin m e \<Rightarrow> \<bar>m\<bar> < 2 ^ 24 \<and> - 149 \<le> e \<and> e \<le> 104 | _ \<Rightarrow> True)"

text \<open>The exact value \<open>m * 2 ^ e\<close>, as a real number.\<close>

definition dyadic :: "int \<Rightarrow> int \<Rightarrow> real" where
  "dyadic m e = (if 0 \<le> e then of_int m * 2 ^ nat e else of_int m / 2 ^ nat (- e))"

text \<open>
  \<open>rne a s\<close> is \<open>a / 2 ^ s\<close>, for \<open>a\<close> not negative, rounded to the nearest
  integer, a tie going to the even neighbour: the default rounding mode of the hardware.
\<close>

definition rne :: "int \<Rightarrow> nat \<Rightarrow> int" where
  "rne a s =
     (let q = a div 2 ^ s; r = a mod 2 ^ s
      in if 2 ^ s < 2 * r \<or> (2 * r = 2 ^ s \<and> odd q) then q + 1 else q)"

text \<open>
  \<open>f32_round m e\<close> is the \<open>float\<close> nearest to the exact value \<open>m * 2 ^ e\<close>: the
  significand is cut to 24 bits (fewer in the subnormal range, where the exponent stops at
  \<open>-149\<close>), and a result of magnitude \<open>2 ^ 128\<close> or more is an infinity.
\<close>

definition f32_round :: "int \<Rightarrow> int \<Rightarrow> f32" where
  "f32_round m e =
     (if m = 0 then Fin 0 0
      else
        let a = \<bar>m\<bar>;
            e' = max (e + bitlen a - 24) (- 149);
            q = (if e' \<le> e then a * 2 ^ nat (e - e') else rne a (nat (e' - e)))
        in if q = 2 ^ 24
           then (if 104 \<le> e' then Infty (m < 0) else Fin (sgn m * 2 ^ 23) (e' + 1))
           else if 104 < e' then Infty (m < 0)
           else Fin (sgn m * q) e')"

text \<open>
  The conversion from \<open>int\<close> to \<open>float\<close> that \<open>relX * screenWidth\<close> applies to its
  right operand, and the product of two \<open>float\<close>s, computed in single precision (the
  platform of the source evaluates \<open>float\<close> expressions in their own type).
\<close>

definition f32_of_int :: "int \<Rightarrow> f32" where
  "f32_of_int i = f32_round i 0"

fun f32_mul :: "f32 \<Rightarrow> f32 \<Rightarrow> f32" where
  "f32_mul (Fin m1 e1) (Fin m2 e2) = f32_round (m1 * m2) (e1 + e2)"
| "f32_mul NaN _ = NaN"
| "f32_mul _ NaN = NaN"
| "f32_mul (Infty s) (Fin m e) = (if m = 0 then NaN else Infty (s \<noteq> (m < 0)))"
| "f32_mul (Fin m e) (Infty s) = (if m = 0 then NaN else Infty (s \<noteq> (m < 0)))"
| "f32_mul (Infty s) (Infty t) = Infty (s \<noteq> t)"

section \<open>Machine integers and undefined behaviour\<close>

text \<open>
  \<open>int\<close> is 32 bits wide. A conversion from \<open>float\<close> whose truncated value does not fit,
  and a signed subtraction that overflows, are undefined behaviour in C++: the model
  stops there with an error.
\<close>

datatype error = FloatToIntOutOfRange | SignedOverflow

definition int_ok :: "int \<Rightarrow> bool" where
  "int_ok i \<longleftrightarrow> - (2 ^ 31) \<le> i \<and> i < 2 ^ 31"

text \<open>The cast \<open>(int)f\<close>: the fraction is discarded (truncation towards zero).\<close>

fun f32_to_int :: "f32 \<Rightarrow> error + int" where
  "f32_to_int (Fin m e) =
     (let t = (if 0 \<le> e then m * 2 ^ nat e else m sdiv 2 ^ nat (- e))
      in if int_ok t then Inr t else Inl FloatToIntOutOfRange)"
| "f32_to_int _ = Inl FloatToIntOutOfRange"

definition int_sub :: "int \<Rightarrow> int \<Rightarrow> error + int" where
  "int_sub a b = (if int_ok (a - b) then Inr (a - b) else Inl SignedOverflow)"

section \<open>Recorded actions\<close>

text \<open>
  The enumeration \<open>RecordedAction::Type\<close>; \<open>TYPE\<close> is written \<open>TYPE'\<close>, the plain
  name being reserved.
\<close>

datatype Type = MOVE | CLICK | DRAG | WAIT | TYPE'

record RecordedAction =
  type :: Type
  relativeX :: f32
  relativeY :: f32
  toRelativeX :: f32
  toRelativeY :: f32
  waitMs :: int
  "text" :: string

text \<open>The constructor \<open>RecordedAction(t, x, y)\<close>; \<open>x\<close> and \<open>y\<close> default to 0.\<close>

definition mkRecordedAction :: "Type \<Rightarrow> f32 \<Rightarrow> f32 \<Rightarrow> RecordedAction" where
  "mkRecordedAction t x y =
     \<lparr>type = t, relativeX = x, relativeY = y, toRelativeX = Fin 0 0, toRelativeY = Fin 0 0,
      waitMs = 0, text = []\<rparr>"

section \<open>The controller\<close>

text \<open>
  The fields of \<open>HIDController\<close> that playback reads and writes. The two IOKit handles
  are never used by playback and are left out.
\<close>

record HIDController =
  screenWidth :: int
  screenHeight :: int
  currentX :: int
  currentY :: int

definition newHIDController :: HIDController where
  "newHIDController = \<lparr>screenWidth = 390, screenHeight = 844, currentX = 0, currentY = 0\<rparr>"

text \<open>
  What a run does, in program order: one entry for each call of a \<open>send\<close> function, with
  its arguments and the report bytes the call builds, and one for each \<open>sleep_for\<close>, with
  its milliseconds. The progress lines that the other functions print are not recorded.
\<close>

datatype event =
    HIDMove int int "8 word list"
  | HIDClick bool "8 word list"
  | HIDType char "8 word" "8 word list" "8 word list"
  | Sleep int

definition relativeToAbsolute :: "HIDController \<Rightarrow> f32 \<Rightarrow> f32 \<Rightarrow> error + (int \<times> int)" where
  "relativeToAbsolute st relX relY =
     (case f32_to_int (f32_mul relX (f32_of_int (screenWidth st))) of
        Inl err \<Rightarrow> Inl err
      | Inr absX \<Rightarrow>
          (case f32_to_int (f32_mul relY (f32_of_int (screenHeight st))) of
             Inl err \<Rightarrow> Inl err
           | Inr absY \<Rightarrow> Inr (absX, absY)))"

text \<open>\<open>(uint8_t)(d & 0xFF)\<close> on a 32-bit \<open>int\<close>.\<close>

definition low_byte :: "int \<Rightarrow> 8 word" where
  "low_byte d = ucast ((word_of_int d :: 32 word) AND 0xFF)"

definition sendMouseMove :: "int \<Rightarrow> int \<Rightarrow> event" where
  "sendMouseMove dx dy = HIDMove dx dy [0x00, low_byte dx, low_byte dy]"

definition sendMouseButton :: "bool \<Rightarrow> event" where
  "sendMouseButton pressed = HIDClick pressed [if pressed then 0x01 else 0x00, 0x00, 0x00]"

text \<open>
  A \<open>char\<close> as the integer it promotes to in a comparison or a subtraction (\<open>char\<close> is
  signed on the platforms this file compiles for).
\<close>

definition char_int :: "char \<Rightarrow> int" where
  "char_int c = (if (of_char c :: int) < 128 then of_char c else of_char c - 256)"

definition asciiToHIDKeycode :: "char \<Rightarrow> 8 word" where
  "asciiToHIDKeycode c =
     (if char_int CHR ''a'' \<le> char_int c \<and> char_int c \<le> char_int CHR ''z''
        then word_of_int (0x04 + (char_int c - char_int CHR ''a''))
      else if char_int CHR ''A'' \<le> char_int c \<and> char_int c \<le> char_int CHR ''Z''
        then word_of_int (0x04 + (char_int c - char_int CHR ''A''))
      else if char_int CHR ''1'' \<le> char_int c \<and> char_int c \<le> char_int CHR ''9''
        then word_of_int (0x1E + (char_int c - char_int CHR ''1''))
      else if c = CHR ''0'' then 0x27
      else if c = CHR '' '' then 0x2C
      else if c = CHR 0x0A then 0x28
      else 0x00)"

text \<open>
  \<open>sendKeyPress\<close> builds the 8-byte keyboard report of the press, prints it, and then
  clears byte 2 for the release, whose sending is a comment. The entry carries both
  states of the report.
\<close>

definition sendKeyPress :: "char \<Rightarrow> event" where
  "sendKeyPress key =
     (let keycode = asciiToHIDKeycode key;
          report = [0x00, 0x00, keycode, 0x00, 0x00, 0x00, 0x00, 0x00]
      in HIDType key keycode report (report[2 := 0x00]))"

text \<open>
  The loop of \<open>moveToPosition\<close>; the first argument counts the iterations that remain
  (\<open>steps - i\<close>).
\<close>

fun move_loop :: "nat \<Rightarrow> int \<Rightarrow> int \<Rightarrow> int \<Rightarrow> event list" where
  "move_loop 0 steps dx dy = []"
| "move_loop (Suc n) steps dx dy =
     sendMouseMove (dx sdiv steps) (dy sdiv steps) # Sleep 10 # move_loop n steps dx dy"

definition moveToPosition ::
  "HIDController \<Rightarrow> f32 \<Rightarrow> f32 \<Rightarrow> error + (HIDController \<times> event list)" where
  "moveToPosition st relX relY =
     (case relativeToAbsolute st relX relY of
        Inl err \<Rightarrow> Inl err
      | Inr (targetX, targetY) \<Rightarrow>
          (case int_sub targetX (currentX st) of
             Inl err \<Rightarrow> Inl err
           | Inr dx \<Rightarrow>
               (case int_sub targetY (currentY st) of
                  Inl err \<Rightarrow> Inl err
                | Inr dy \<Rightarrow>
                    (let steps = 10
                     in Inr (st\<lparr>currentX := targetX, currentY := targetY\<rparr>,
                             move_loop (nat steps) steps dx dy)))))"

definition click :: "event list" where
  "click = [sendMouseButton True, Sleep 50, sendMouseButton False]"

definition drag ::
  "HIDController \<Rightarrow> f32 \<Rightarrow> f32 \<Rightarrow> f32 \<Rightarrow> f32 \<Rightarrow> error + (HIDController \<times> event list)" where
  "drag st fromX fromY toX toY =
     (case moveToPosition st fromX fromY of
        Inl err \<Rightarrow> Inl err
      | Inr (st1, ev1) \<Rightarrow>
          (case moveToPosition st1 toX toY of
             Inl err \<Rightarrow> Inl err
           | Inr (st2, ev2) \<Rightarrow>
               Inr (st2, ev1 @ [Sleep 100, sendMouseButton True, Sleep 100] @ ev2
                           @ [Sleep 100, sendMouseButton False])))"

fun typeText :: "string \<Rightarrow> event list" where
  "typeText [] = []"
| "typeText (c # cs) = sendKeyPress c # Sleep 50 # typeText cs"

text \<open>The body of the loop of \<open>executeRecording\<close>: the \<open>switch\<close> and the delay after it.\<close>

definition executeAction ::
  "HIDController \<Rightarrow> RecordedAction \<Rightarrow> error + (HIDController \<times> event list)" where
  "executeAction st action =
     (case (case type action of
              MOVE \<Rightarrow> moveToPosition st (relativeX action) (relativeY action)
            | CLICK \<Rightarrow>
                (case moveToPosition st (relativeX action) (relativeY action) of
                   Inl err \<Rightarrow> Inl err
                 | Inr (st1, ev1) \<Rightarrow> Inr (st1, ev1 @ [Sleep 100] @ click))
            | DRAG \<Rightarrow>
                drag st (relativeX action) (relativeY action)
                  (toRelativeX action) (toRelativeY action)
            | WAIT \<Rightarrow> Inr (st, [Sleep (waitMs action)])
            | TYPE' \<Rightarrow> Inr (st, typeText (text action))) of
        Inl err \<Rightarrow> Inl err
      | Inr (st1, ev1) \<Rightarrow> Inr (st1, ev1 @ [Sleep 100]))"

fun executeRecording ::
  "HIDController \<Rightarrow> RecordedAction list \<Rightarrow> error + (HIDController \<times> event list)" where
  "executeRecording st [] = Inr (st, [])"
| "executeRecording st (action # actions) =
     (case executeAction st action of
        Inl err \<Rightarrow> Inl err
      | Inr (st1, ev1) \<Rightarrow>
          (case executeRecording st1 actions of
             Inl err \<Rightarrow> Inl err
           | Inr (st2, ev2) \<Rightarrow> Inr (st2, ev1 @ ev2)))"

text \<open>
  \<open>getHomeButtonRecording\<close>. Its literals are the \<open>float\<close>s nearest to the decimals:
  \<open>0.5f\<close>, \<open>0.05f\<close>, \<open>0.85f\<close> and \<open>0.02f\<close>.
\<close>

definition lit_0_5 :: f32 where "lit_0_5 = Fin 8388608 (- 24)"
definition lit_0_05 :: f32 where "lit_0_05 = Fin 13421773 (- 28)"
definition lit_0_85 :: f32 where "lit_0_85 = Fin 14260634 (- 24)"
definition lit_0_02 :: f32 where "lit_0_02 = Fin 10737418 (- 29)"

definition getHomeButtonRecording :: "RecordedAction list" where
  "getHomeButtonRecording =
     (let hover = mkRecordedAction MOVE lit_0_5 lit_0_05;
          wait = (mkRecordedAction WAIT (Fin 0 0) (Fin 0 0))\<lparr>waitMs := 500\<rparr>;
          homeClick = mkRecordedAction CLICK lit_0_85 lit_0_02;
          wait' = wait\<lparr>waitMs := 1000\<rparr>
      in [hover, wait, homeClick, wait'])"

section \<open>Vocabulary of the properties\<close>

text \<open>The real number a finite \<open>float\<close> stands for (0 for an infinity and for NaN).\<close>

fun f32_val :: "f32 \<Rightarrow> real" where
  "f32_val (Fin m e) = dyadic m e"
| "f32_val (Infty s) = 0"
| "f32_val NaN = 0"

text \<open>A relative coordinate in range: a finite \<open>float\<close> between 0.0 and 1.0.\<close>

fun in_unit :: "f32 \<Rightarrow> bool" where
  "in_unit (Fin m e) = (0 \<le> dyadic m e \<and> dyadic m e \<le> 1)"
| "in_unit (Infty s) = False"
| "in_unit NaN = False"

text \<open>\<open>2 ^ k\<close> for an exponent of either sign.\<close>

definition p2 :: "int \<Rightarrow> real" where
  "p2 k = 2 powr (of_int k)"

text \<open>
  The input events of a run are its entries other than the delays; \<open>is_button b\<close>
  picks the button reports with state \<open>b\<close>.
\<close>

fun is_sleep :: "event \<Rightarrow> bool" where
  "is_sleep (Sleep n) = True"
| "is_sleep _ = False"

definition hid_events :: "event list \<Rightarrow> event list" where
  "hid_events evs = filter (\<lambda>e. \<not> is_sleep e) evs"

fun is_button :: "bool \<Rightarrow> event \<Rightarrow> bool" where
  "is_button b (HIDClick pressed report) = (pressed = b)"
| "is_button b _ = False"

text \<open>
  The order of a Type action in the specification's words: for each character, key-down,
  the per-character delay, key-up. \<open>key_steps\<close> reads a run in the same words: the
  press report of a \<open>sendKeyPress\<close> call is the key-down, the release report the same
  call prepares is the key-up, a \<open>sleep_for\<close> is a delay.
\<close>

datatype key_step = KeyDown "8 word" | KeyUp "8 word" | Delay int

definition Type_spec :: "string \<Rightarrow> key_step list" where
  "Type_spec t =
     concat (map (\<lambda>c. [KeyDown (asciiToHIDKeycode c), Delay 50, KeyUp (asciiToHIDKeycode c)]) t)"

fun key_steps :: "event list \<Rightarrow> key_step list" where
  "key_steps [] = []"
| "key_steps (HIDType c k press release # es) = KeyDown k # KeyUp k # key_steps es"
| "key_steps (Sleep n # es) = Delay n # key_steps es"
| "key_steps (HIDMove dx dy report # es) = key_steps es"
| "key_steps (HIDClick pressed report # es) = key_steps es"

text \<open>
  The failure semantics in the specification's words (section 4.4): an emission can fail,
  and after a failed emission no further event is emitted. The \<open>send\<close> functions of
  the source return \<open>void\<close>; \<open>fails\<close> says which emissions the transport would fail.
\<close>

fun spec_stops_at_failure :: "(event \<Rightarrow> bool) \<Rightarrow> event list \<Rightarrow> bool" where
  "spec_stops_at_failure fails [] = True"
| "spec_stops_at_failure fails (e # es) =
     (if fails e then hid_events es = [] else spec_stops_at_failure fails es)"

text \<open>The number of input events of an action that runs to its end.\<close>

definition action_emits :: "RecordedAction \<Rightarrow> nat" where
  "action_emits a =
     (case type a of
        MOVE \<Rightarrow> 10
      | CLICK \<Rightarrow> 12
      | DRAG \<Rightarrow> 22
      | WAIT \<Rightarrow> 0
      | TYPE' \<Rightarrow> length (text a))"

text \<open>The coordinates an action's kind reads are in range.\<close>

definition coords_in_unit :: "RecordedAction \<Rightarrow> bool" where
  "coords_in_unit a =
     (case type a of
        MOVE \<Rightarrow> in_unit (relativeX a) \<and> in_unit (relativeY a)
      | CLICK \<Rightarrow> in_unit (relativeX a) \<and> in_unit (relativeY a)
      | DRAG \<Rightarrow> in_unit (relativeX a) \<and> in_unit (relativeY a)
                 \<and> in_unit (toRelativeX a) \<and> in_unit (toRelativeY a)
      | WAIT \<Rightarrow> True
      | TYPE' \<Rightarrow> True)"

text \<open>
  A move report keeps its deltas: both lie in \<open>[-127, 127]\<close>, and bytes 1 and 2 of the
  report, read as two's-complement \<open>int8\<close>, are the deltas.
\<close>

fun delta_preserved :: "event \<Rightarrow> bool" where
  "delta_preserved (HIDMove dx dy report) =
     (- 127 \<le> dx \<and> dx \<le> 127 \<and> - 127 \<le> dy \<and> dy \<le> 127
      \<and> length report = 3 \<and> sint (report ! 1) = dx \<and> sint (report ! 2) = dy)"
| "delta_preserved _ = True"

text \<open>
  The default profile with the cursor on the screen: the invariant of a playback whose
  coordinates are in range.
\<close>

definition on_screen :: "HIDController \<Rightarrow> bool" where
  "on_screen st \<longleftrightarrow>
     screenWidth st = 390 \<and> screenHeight st = 844
     \<and> 0 \<le> currentX st \<and> currentX st \<le> 390 \<and> 0 \<le> currentY st \<and> currentY st \<le> 844"

text \<open>Inputs of the examples below.\<close>

definition lit_1_0 :: f32 where "lit_1_0 = Fin 8388608 (- 23)"

definition dragInPlace :: RecordedAction where
  "dragInPlace =
     (mkRecordedAction DRAG lit_0_5 lit_0_5)\<lparr>toRelativeX := lit_0_5, toRelativeY := lit_0_5\<rparr>"

definition dragAcross :: RecordedAction where
  "dragAcross =
     (mkRecordedAction DRAG lit_0_5 lit_0_5)\<lparr>toRelativeX := lit_1_0, toRelativeY := lit_1_0\<rparr>"

definition moveNowhere :: RecordedAction where
  "moveNowhere = mkRecordedAction MOVE (Fin 0 0) (Fin 0 0)"

definition typeHi :: RecordedAction where
  "typeHi = (mkRecordedAction TYPE' (Fin 0 0) (Fin 0 0))\<lparr>text := ''Hi!''\<rparr>"

section \<open>Rounding to single precision\<close>

lemma p2_add: "p2 (a + b) = p2 a * p2 b"
  by (simp add: p2_def powr_add)

lemma p2_pos [simp]: "0 < p2 k"
  by (simp add: p2_def)

lemma p2_nonneg [simp]: "0 \<le> p2 k"
  by (simp add: p2_def)

lemma p2_not_le [simp]: "\<not> p2 k \<le> 0" "\<not> p2 k < 0"
  by (simp_all add: p2_def not_le not_less)

lemma p2_0 [simp]: "p2 0 = 1"
  by (simp add: p2_def)

lemma p2_nat: "0 \<le> k \<Longrightarrow> p2 k = of_int (2 ^ nat k)"
proof -
  assume "0 \<le> k"
  then have "real_of_int k = real (nat k)" by simp
  then have "p2 k = 2 powr (real (nat k))" by (simp only: p2_def)
  also have "\<dots> = 2 ^ nat k" by (rule powr_realpow) simp
  finally show ?thesis by simp
qed

lemma p2_mono: "a \<le> b \<Longrightarrow> p2 a \<le> p2 b"
  by (simp add: p2_def)

lemma p2_cancel [simp]: "p2 k * p2 (- k) = 1" "p2 (- k) * p2 k = 1"
  using p2_add [of k "- k"] p2_add [of "- k" k] by simp_all

lemma dyadic_p2: "dyadic m e = of_int m * p2 e"
proof (cases "0 \<le> e")
  case True
  then show ?thesis by (simp add: dyadic_def p2_nat)
next
  case False
  then have "p2 (- e) = 2 ^ nat (- e)" by (simp add: p2_nat)
  moreover have "p2 e = 1 / p2 (- e)"
    by (simp add: p2_def powr_minus_divide)
  ultimately show ?thesis using False by (simp add: dyadic_def)
qed


lemma rne_bounds:
  assumes "L * 2 ^ s \<le> a" and "a \<le> K * 2 ^ s"
  shows "L \<le> rne a s \<and> rne a s \<le> K"
proof -
  have p: "(0::int) < 2 ^ s" by simp
  have lo: "L \<le> a div 2 ^ s"
    using zdiv_mono1 [OF assms(1) p] by simp
  have hi: "a div 2 ^ s \<le> K"
    using zdiv_mono1 [OF assms(2) p] by simp
  have strict: "a div 2 ^ s < K" if "a mod 2 ^ s \<noteq> 0"
  proof -
    have "a \<noteq> K * 2 ^ s" using that by auto
    with assms(2) have "a < K * 2 ^ s" by simp
    moreover have "a div 2 ^ s * 2 ^ s \<le> a"
      using pos_mod_sign [OF p, of a] by (simp add: minus_mod_eq_div_mult [symmetric])
    ultimately have "a div 2 ^ s * 2 ^ s < K * 2 ^ s" by linarith
    then show ?thesis by simp
  qed
  show ?thesis
  proof (cases "a mod 2 ^ s = 0")
    case True
    then have "rne a s = a div 2 ^ s" by (simp add: rne_def Let_def)
    with lo hi show ?thesis by simp
  next
    case False
    then have "a div 2 ^ s < K" by (rule strict)
    moreover have "rne a s = a div 2 ^ s \<or> rne a s = a div 2 ^ s + 1"
      by (simp add: rne_def Let_def)
    ultimately show ?thesis using lo by auto
  qed
qed

text \<open>
  \<open>rne\<close> rounds to a nearest integer (the error is at most half a unit) and a tie
  goes to the even neighbour; a rounded number is a \<open>float\<close> again.
\<close>

lemma rne_nearest:
  fixes a :: int
  shows "\<bar>2 * (rne a s * 2 ^ s - a)\<bar> \<le> 2 ^ s"
  and rne_tie_even: "2 * (a mod 2 ^ s) = 2 ^ s \<Longrightarrow> even (rne a s)"
proof -
  define q where "q = a div 2 ^ s"
  define r where "r = a mod 2 ^ s"
  have a: "a = q * 2 ^ s + r"
    by (simp add: q_def r_def div_mult_mod_eq)
  have r: "0 \<le> r" "r < 2 ^ s"
    by (simp_all add: r_def)
  have rne: "rne a s = (if 2 ^ s < 2 * r \<or> (2 * r = 2 ^ s \<and> odd q) then q + 1 else q)"
    by (simp add: rne_def Let_def q_def r_def)
  have "rne a s * 2 ^ s - a = (rne a s - q) * 2 ^ s - r"
    using a by (simp add: algebra_simps)
  also have "\<dots> = (if 2 ^ s < 2 * r \<or> (2 * r = 2 ^ s \<and> odd q) then 2 ^ s - r else - r)"
    by (simp add: rne)
  finally show "\<bar>2 * (rne a s * 2 ^ s - a)\<bar> \<le> 2 ^ s"
    using r by (simp split: if_splits)
  show "even (rne a s)" if "2 * (a mod 2 ^ s) = 2 ^ s"
    using that by (simp add: rne r_def [symmetric])
qed

lemma f32_round_valid: "valid_f32 (f32_round m e)"
proof (cases "m = 0")
  case True
  then show ?thesis by (simp add: f32_round_def valid_f32_def)
next
  case False
  define a where "a = \<bar>m\<bar>"
  define n where "n = bitlen a"
  define e' where "e' = max (e + n - 24) (- 149)"
  define q where "q = (if e' \<le> e then a * 2 ^ nat (e - e') else rne a (nat (e' - e)))"
  have a: "0 < a" using False by (simp add: a_def)
  have n0: "0 \<le> n" by (simp add: n_def bitlen_nonneg)
  have an: "a < 2 ^ nat n"
    using bitlen_bounds [OF a] by (simp add: n_def)
  have e'l: "- 149 \<le> e'" and e'n: "e + n - 24 \<le> e'"
    by (simp_all add: e'_def)
  have q: "0 \<le> q \<and> q \<le> 2 ^ 24"
  proof (cases "e' \<le> e")
    case True
    define k where "k = nat (e - e')"
    have "nat n + k \<le> 24"
      using True e'n n0 by (simp add: k_def)
    then have le: "(2::int) ^ (nat n + k) \<le> 2 ^ 24"
      by (simp only: power_increasing_iff) 
    have "a * 2 ^ k < 2 ^ nat n * 2 ^ k"
      using an by simp
    also have "\<dots> = 2 ^ (nat n + k)"
      by (simp add: power_add)
    also note le
    finally have "a * 2 ^ k < 2 ^ 24" .
    then show ?thesis
      using True a by (simp add: q_def k_def)
  next
    case False
    define s where "s = nat (e' - e)"
    have "nat n \<le> 24 + s"
      using False e'n n0 by (simp add: s_def)
    then have "(2::int) ^ nat n \<le> 2 ^ (24 + s)"
      by (simp only: power_increasing_iff)
    also have "\<dots> = 2 ^ 24 * 2 ^ s"
      by (simp only: power_add)
    finally have 2: "a \<le> 2 ^ 24 * 2 ^ s"
      using an by simp
    have 1: "0 * 2 ^ s \<le> a" using a by simp
    from rne_bounds [OF 1 2] False show ?thesis
      by (simp add: q_def s_def)
  qed
  have m: "\<bar>sgn m\<bar> = 1" "m \<noteq> 0"
    using False by (simp_all add: abs_sgn_eq)
  have "f32_round m e =
          (if q = 2 ^ 24
           then (if 104 \<le> e' then Infty (m < 0) else Fin (sgn m * 2 ^ 23) (e' + 1))
           else if 104 < e' then Infty (m < 0)
           else Fin (sgn m * q) e')"
    unfolding f32_round_def Let_def q_def e'_def n_def a_def by (simp only: m if_False)
  then show ?thesis
    using q e'l m(1) by (auto simp: valid_f32_def abs_mult)
qed

lemma f32_mul_valid: "valid_f32 (f32_mul x y)"
  by (cases x; cases y) (simp_all add: f32_round_valid, simp_all add: valid_f32_def)

text \<open>
  Integers below \<open>2 ^ 24\<close> are \<open>float\<close>s, and rounding is monotone: a value between
  two such integers rounds to a \<open>float\<close> between them.
\<close>

lemma f32_round_bounds:
  assumes M: "0 < M" and lo: "0 \<le> lo" and hi: "hi < 2 ^ 24"
    and lov: "of_int lo \<le> dyadic M E" and vhi: "dyadic M E \<le> of_int hi"
  shows "\<exists>q e'. f32_round M E = Fin q e' \<and> 0 \<le> q
           \<and> of_int lo \<le> dyadic q e' \<and> dyadic q e' \<le> of_int hi"
proof -
  define n where "n = bitlen M"
  define e' where "e' = max (E + n - 24) (- 149)"
  define Q where "Q = (if e' \<le> E then M * 2 ^ nat (E - e') else rne M (nat (e' - E)))"
  have n1: "1 \<le> n"
    using M by (simp add: n_def bitlen_alt_def)
  have nb: "2 ^ nat (n - 1) \<le> M"
    using bitlen_bounds [OF M] by (simp add: n_def)
  have v: "dyadic M E = of_int M * p2 E"
    by (rule dyadic_p2)
  have e'0: "e' \<le> 0"
  proof (rule ccontr)
    assume "\<not> e' \<le> 0"
    then have big: "24 \<le> n - 1 + E" by (simp add: e'_def)
    have pm: "p2 (n - 1) \<le> of_int M"
      using nb n1 by (simp only: p2_nat of_int_le_iff) 
    have "p2 (n - 1 + E) = p2 (n - 1) * p2 E"
      by (rule p2_add)
    also have "\<dots> \<le> of_int M * p2 E"
      using pm by (rule mult_right_mono) simp
    also have "\<dots> \<le> of_int hi"
      using vhi by (simp only: v)
    finally have "p2 (n - 1 + E) \<le> of_int hi" .
    moreover have "p2 24 \<le> p2 (n - 1 + E)"
      using big by (rule p2_mono)
    ultimately have "real_of_int (2 ^ nat 24) \<le> of_int hi"
      by (simp add: p2_nat)
    then have "2 ^ nat 24 \<le> hi"
      by (simp only: of_int_le_iff)
    with hi show False by simp
  qed
  have dQ: "of_int lo \<le> dyadic Q e' \<and> dyadic Q e' \<le> of_int hi \<and> 0 \<le> Q"
  proof (cases "e' \<le> E")
    case True
    then have "of_int Q = of_int M * p2 (E - e')"
      by (simp add: Q_def p2_nat)
    then have "dyadic Q e' = of_int M * (p2 (E - e') * p2 e')"
      by (simp add: dyadic_p2)
    also have "p2 (E - e') * p2 e' = p2 E"
      using p2_add [of "E - e'" e'] by simp
    finally have "dyadic Q e' = dyadic M E"
      by (simp only: v)
    moreover have "0 \<le> Q"
      using M True by (simp add: Q_def)
    ultimately show ?thesis using lov vhi by simp
  next
    case False
    define s where "s = nat (e' - E)"
    define L where "L = lo * 2 ^ nat (- e')"
    define K where "K = hi * 2 ^ nat (- e')"
    have Qs: "Q = rne M s"
      using False by (simp add: Q_def s_def)
    have ps: "real_of_int (2 ^ s) = p2 (e' - E)"
      using False by (simp add: s_def p2_nat)
    have pe: "real_of_int (2 ^ nat (- e')) = p2 (- e')"
      using e'0 by (simp add: p2_nat)
    have split: "p2 (- e') * p2 (e' - E) = p2 (- E)"
      using p2_add [of "- e'" "e' - E"] by simp
    have ME: "of_int M = dyadic M E * p2 (- E)"
      by (simp add: v)
    have "real_of_int (L * 2 ^ s) = of_int lo * p2 (- E)"
      by (simp add: L_def ps pe split mult.assoc del: of_int_power)
    also have "\<dots> \<le> dyadic M E * p2 (- E)"
      using lov by (rule mult_right_mono) simp
    finally have "real_of_int (L * 2 ^ s) \<le> of_int M"
      by (simp only: ME [symmetric])
    then have 1: "L * 2 ^ s \<le> M"
      by (simp only: of_int_le_iff)
    have "of_int M = dyadic M E * p2 (- E)"
      by (rule ME)
    also have "\<dots> \<le> of_int hi * p2 (- E)"
      using vhi by (rule mult_right_mono) simp
    also have "\<dots> = real_of_int (K * 2 ^ s)"
      by (simp add: K_def ps pe split mult.assoc del: of_int_power)
    finally have 2: "M \<le> K * 2 ^ s"
      by (simp only: of_int_le_iff)
    from rne_bounds [OF 1 2] have LQ: "L \<le> Q" and QK: "Q \<le> K"
      by (simp_all add: Qs)
    have "of_int lo = real_of_int L * p2 e'"
      by (simp add: L_def pe mult.assoc del: of_int_power)
    also have "\<dots> \<le> of_int Q * p2 e'"
      using LQ by (intro mult_right_mono) simp_all
    finally have a: "of_int lo \<le> dyadic Q e'"
      by (simp only: dyadic_p2)
    have "of_int Q * p2 e' \<le> real_of_int K * p2 e'"
      using QK by (intro mult_right_mono) simp_all
    also have "\<dots> = of_int hi"
      by (simp add: K_def pe mult.assoc del: of_int_power)
    finally have b: "dyadic Q e' \<le> of_int hi"
      by (simp only: dyadic_p2)
    have "0 \<le> L" using lo by (simp add: L_def)
    with LQ a b show ?thesis by simp
  qed
  have M0: "M \<noteq> 0" "\<bar>M\<bar> = M"
    using M by simp_all
  have "f32_round M E =
          (if Q = 2 ^ 24
           then (if 104 \<le> e' then Infty (M < 0) else Fin (sgn M * 2 ^ 23) (e' + 1))
           else if 104 < e' then Infty (M < 0)
           else Fin (sgn M * Q) e')"
    unfolding f32_round_def Let_def Q_def e'_def n_def by (simp only: M0 if_False)
  then have r: "f32_round M E = (if Q = 2 ^ 24 then Fin (2 ^ 23) (e' + 1) else Fin Q e')"
    using M e'0 by simp
  show ?thesis
  proof (cases "Q = 2 ^ 24")
    case True
    have "dyadic (2 ^ 23) (e' + 1) = dyadic Q e'"
      by (simp add: True dyadic_p2 p2_add p2_nat)
    with dQ r True show ?thesis by simp
  next
    case False
    with dQ r show ?thesis by simp
  qed
qed


lemma dyadic_mult: "dyadic (m1 * m2) (e1 + e2) = dyadic m1 e1 * dyadic m2 e2"
  by (simp add: dyadic_p2 p2_add)

lemma dyadic_sign: "0 \<le> dyadic m e \<longleftrightarrow> 0 \<le> m"
  by (simp add: dyadic_p2 zero_le_mult_iff)

lemma dyadic_pos: "0 < dyadic m e \<longleftrightarrow> 0 < m"
  by (simp add: dyadic_p2 zero_less_mult_iff)

lemma dyadic_0 [simp]: "dyadic 0 e = 0" "dyadic m 0 = of_int m"
  by (simp_all add: dyadic_def)

lemma f32_to_int_floor:
  assumes q: "0 \<le> q" and hi: "dyadic q e \<le> of_int hi" "hi < 2 ^ 31"
  shows "f32_to_int (Fin q e) = Inr \<lfloor>dyadic q e\<rfloor>"
proof -
  define t where "t = (if 0 \<le> e then q * 2 ^ nat e else q sdiv 2 ^ nat (- e))"
  have t: "t = \<lfloor>dyadic q e\<rfloor>"
  proof (cases "0 \<le> e")
    case True
    then have "dyadic q e = of_int (q * 2 ^ nat e)" by (simp add: dyadic_def)
    then show ?thesis using True by (simp add: t_def del: of_int_mult of_int_power)
  next
    case False
    have "q sdiv 2 ^ nat (- e) = q div 2 ^ nat (- e)"
      using q by (simp add: signed_divide_int_def sgn_if)
    moreover have "dyadic q e = of_int q / of_int (2 ^ nat (- e))"
      using False by (simp add: dyadic_def)
    ultimately show ?thesis
      using False by (simp add: t_def floor_divide_of_int_eq del: of_int_power)
  qed
  have "0 \<le> t"
    unfolding t using q by (simp add: dyadic_sign)
  moreover have "t \<le> hi"
    unfolding t using hi(1) by (simp add: floor_le_iff) 
  ultimately have "int_ok t"
    using hi(2) by (simp add: int_ok_def)
  then show ?thesis
    by (simp add: t_def [symmetric] t [symmetric] Let_def)
qed

lemma f32_of_int_exact:
  assumes "0 < w" and "w < 2 ^ 24"
  shows "\<exists>mw ew. f32_of_int w = Fin mw ew \<and> 0 < mw \<and> dyadic mw ew = of_int w"
proof -
  have "of_int w \<le> dyadic w 0" "dyadic w 0 \<le> of_int w" by simp_all
  from f32_round_bounds [OF assms(1) _ assms(2) this]
  obtain q e' where "f32_round w 0 = Fin q e'" "of_int w \<le> dyadic q e'" "dyadic q e' \<le> of_int w"
    using assms(1) by auto
  moreover from this have "dyadic q e' = of_int w" by simp
  moreover from this have "0 < q" using assms(1) dyadic_pos [of q e'] by simp
  ultimately show ?thesis by (simp add: f32_of_int_def)
qed

lemma coordinate_product:
  assumes x: "in_unit x" and w: "0 < w" "w < 2 ^ 24"
  shows "\<exists>t. f32_to_int (f32_mul x (f32_of_int w)) = Inr t
           \<and> t = \<lfloor>f32_val (f32_mul x (f32_of_int w))\<rfloor>
           \<and> \<lfloor>f32_val x * of_int w\<rfloor> \<le> t \<and> t \<le> \<lceil>f32_val x * of_int w\<rceil>"
proof -
  from x obtain m e where xm: "x = Fin m e" and x0: "0 \<le> dyadic m e" and x1: "dyadic m e \<le> 1"
    by (cases x) simp_all
  from f32_of_int_exact [OF w] obtain mw ew where fw: "f32_of_int w = Fin mw ew"
    and mw: "0 < mw" and dw: "dyadic mw ew = of_int w"
    by blast
  define v where "v = dyadic m e * of_int w"
  have v0: "0 \<le> v" and vw: "v \<le> of_int w"
    using x0 x1 w(1) by (simp_all add: v_def mult_left_le_one_le)
  have dv: "dyadic (m * mw) (e + ew) = v"
    by (simp add: dyadic_mult dw v_def)
  have prod: "f32_mul x (f32_of_int w) = f32_round (m * mw) (e + ew)"
    by (simp add: xm fw)
  have m0: "0 \<le> m" using x0 by (simp add: dyadic_sign)
  show ?thesis
  proof (cases "m = 0")
    case True
    then show ?thesis
      by (simp add: xm fw f32_round_def int_ok_def)
  next
    case False
    with m0 mw have M: "0 < m * mw" by simp
    have lo: "0 \<le> \<lfloor>v\<rfloor>" using v0 by simp
    have "\<lceil>v\<rceil> \<le> w" using vw by (simp add: ceiling_le_iff)
    then have hi: "\<lceil>v\<rceil> < 2 ^ 24" using w(2) by (rule le_less_trans)
    have "of_int \<lfloor>v\<rfloor> \<le> dyadic (m * mw) (e + ew)" "dyadic (m * mw) (e + ew) \<le> of_int \<lceil>v\<rceil>"
      by (simp_all add: dv)
    from f32_round_bounds [OF M lo hi this]
    obtain q e' where r: "f32_round (m * mw) (e + ew) = Fin q e'" and q: "0 \<le> q"
      and ql: "of_int \<lfloor>v\<rfloor> \<le> dyadic q e'" and qh: "dyadic q e' \<le> of_int \<lceil>v\<rceil>"
      by blast
    from hi have "\<lceil>v\<rceil> < 2 ^ 31" by (rule less_trans) simp
    from f32_to_int_floor [OF q qh this]
    have t: "f32_to_int (Fin q e') = Inr \<lfloor>dyadic q e'\<rfloor>" .
    have "\<lfloor>v\<rfloor> \<le> \<lfloor>dyadic q e'\<rfloor>"
      using ql by (simp add: le_floor_iff)
    moreover have "\<lfloor>dyadic q e'\<rfloor> \<le> \<lceil>v\<rceil>"
      using qh by (simp add: floor_le_iff)
    ultimately show ?thesis
      using t by (simp add: xm fw r v_def)
  qed
qed

section \<open>Moves, drags and recordings\<close>

lemma hid_events_simps [simp]:
  "hid_events [] = []"
  "hid_events (Sleep n # es) = hid_events es"
  "hid_events (sendMouseMove dx dy # es) = sendMouseMove dx dy # hid_events es"
  "hid_events (sendMouseButton b # es) = sendMouseButton b # hid_events es"
  "hid_events (sendKeyPress c # es) = sendKeyPress c # hid_events es"
  "hid_events (xs @ ys) = hid_events xs @ hid_events ys"
  by (simp_all add: hid_events_def sendMouseMove_def sendMouseButton_def sendKeyPress_def Let_def)

lemma move_loop_concat:
  "move_loop n steps dx dy =
     concat (replicate n [sendMouseMove (dx sdiv steps) (dy sdiv steps), Sleep 10])"
  by (induction n) simp_all

lemma hid_events_move_loop:
  "hid_events (move_loop n steps dx dy) = replicate n (sendMouseMove (dx sdiv steps) (dy sdiv steps))"
  by (induction n) simp_all

lemma moveToPosition_Inr:
  assumes "moveToPosition st relX relY = Inr (st', evs)"
  obtains tx ty where "relativeToAbsolute st relX relY = Inr (tx, ty)"
    and "int_ok (tx - currentX st)" and "int_ok (ty - currentY st)"
    and "st' = st\<lparr>currentX := tx, currentY := ty\<rparr>"
    and "evs = move_loop 10 10 (tx - currentX st) (ty - currentY st)"
  using assms
  by (auto simp: moveToPosition_def int_sub_def Let_def split: sum.splits if_splits)

lemma relativeToAbsolute_cong:
  "screenWidth st' = screenWidth st \<Longrightarrow> screenHeight st' = screenHeight st \<Longrightarrow>
   relativeToAbsolute st' x y = relativeToAbsolute st x y"
  by (simp add: relativeToAbsolute_def split: sum.splits)

lemma relativeToAbsolute_cursor_update [simp]:
  "relativeToAbsolute (st\<lparr>currentX := cx, currentY := cy\<rparr>) x y = relativeToAbsolute st x y"
  by (rule relativeToAbsolute_cong) simp_all

lemma moveToPosition_screen:
  assumes "moveToPosition st x y = Inr (st', evs)"
  shows "screenWidth st' = screenWidth st \<and> screenHeight st' = screenHeight st"
  using assms by (elim moveToPosition_Inr) simp

lemma moveToPosition_cursor:
  assumes "moveToPosition st x y = Inr (st', evs)"
  shows "relativeToAbsolute st x y = Inr (currentX st', currentY st')"
  using assms by (elim moveToPosition_Inr) simp

lemma drag_Inr:
  assumes "drag st fromX fromY toX toY = Inr (st', evs)"
  obtains st1 ev1 ev2 where "moveToPosition st fromX fromY = Inr (st1, ev1)"
    and "moveToPosition st1 toX toY = Inr (st', ev2)"
    and "evs = ev1 @ [Sleep 100, sendMouseButton True, Sleep 100] @ ev2
                 @ [Sleep 100, sendMouseButton False]"
  using assms by (auto simp: drag_def split: sum.splits)

lemma executeAction_screen:
  assumes "executeAction st a = Inr (st', evs)"
  shows "screenWidth st' = screenWidth st \<and> screenHeight st' = screenHeight st"
proof (cases "type a")
  case MOVE
  with assms show ?thesis
    by (auto simp: executeAction_def split: sum.splits dest: moveToPosition_screen)
next
  case CLICK
  with assms show ?thesis
    by (auto simp: executeAction_def split: sum.splits dest: moveToPosition_screen)
next
  case DRAG
  with assms obtain evs' where "drag st (relativeX a) (relativeY a) (toRelativeX a) (toRelativeY a) = Inr (st', evs')"
    by (auto simp: executeAction_def split: sum.splits)
  then obtain st1 ev1 ev2 where m1: "moveToPosition st (relativeX a) (relativeY a) = Inr (st1, ev1)"
    and m2: "moveToPosition st1 (toRelativeX a) (toRelativeY a) = Inr (st', ev2)"
    by (elim drag_Inr)
  from moveToPosition_screen [OF m1] moveToPosition_screen [OF m2] show ?thesis by simp
next
  case WAIT
  with assms show ?thesis by (auto simp: executeAction_def)
next
  case TYPE'
  with assms show ?thesis by (auto simp: executeAction_def)
qed

lemma executeRecording_screen:
  "executeRecording st actions = Inr (st', evs) \<Longrightarrow>
   screenWidth st' = screenWidth st \<and> screenHeight st' = screenHeight st"
proof (induction actions arbitrary: st st' evs)
  case Nil
  then show ?case by simp
next
  case (Cons a actions)
  from Cons.prems obtain st1 ev1 ev2 where a: "executeAction st a = Inr (st1, ev1)"
    and r: "executeRecording st1 actions = Inr (st', ev2)"
    by (auto split: sum.splits)
  from executeAction_screen [OF a] Cons.IH [OF r] show ?case by simp
qed

lemma executeRecording_append:
  "executeRecording st (as @ bs) =
     (case executeRecording st as of
        Inl err \<Rightarrow> Inl err
      | Inr (st1, ev1) \<Rightarrow>
          (case executeRecording st1 bs of
             Inl err \<Rightarrow> Inl err
           | Inr (st2, ev2) \<Rightarrow> Inr (st2, ev1 @ ev2)))"
  by (induction as arbitrary: st) (auto split: sum.splits)

lemma filter_is_button_replicate_move [simp]:
  "filter (is_button b) (replicate n (sendMouseMove dx dy)) = []"
  by (induction n) (simp_all add: sendMouseMove_def)

lemma is_button_simps [simp]:
  "is_button b (sendMouseButton p) = (p = b)"
  "is_button b (sendMouseMove dx dy) = False"
  by (simp_all add: sendMouseButton_def sendMouseMove_def)

lemma hid_events_idem [simp]: "hid_events (hid_events evs) = hid_events evs"
  by (simp add: hid_events_def)

lemma filter_is_button_hid_events:
  "filter (is_button b) (hid_events evs) = filter (is_button b) evs"
proof (induction evs)
  case Nil
  then show ?case by simp
next
  case (Cons e evs)
  then show ?case by (cases e) (simp_all add: hid_events_def)
qed

lemma relativeToAbsolute_in_range:
  assumes x: "in_unit relX" and y: "in_unit relY"
    and w: "0 < screenWidth st" "screenWidth st < 2 ^ 24"
    and h: "0 < screenHeight st" "screenHeight st < 2 ^ 24"
  shows "\<exists>absX absY. relativeToAbsolute st relX relY = Inr (absX, absY)
           \<and> absX = \<lfloor>f32_val (f32_mul relX (f32_of_int (screenWidth st)))\<rfloor>
           \<and> absY = \<lfloor>f32_val (f32_mul relY (f32_of_int (screenHeight st)))\<rfloor>
           \<and> \<lfloor>f32_val relX * of_int (screenWidth st)\<rfloor> \<le> absX
           \<and> absX \<le> \<lceil>f32_val relX * of_int (screenWidth st)\<rceil>
           \<and> \<lfloor>f32_val relY * of_int (screenHeight st)\<rfloor> \<le> absY
           \<and> absY \<le> \<lceil>f32_val relY * of_int (screenHeight st)\<rceil>"
proof -
  from coordinate_product [OF x w] obtain tx
    where tx: "f32_to_int (f32_mul relX (f32_of_int (screenWidth st))) = Inr tx"
      and px: "tx = \<lfloor>f32_val (f32_mul relX (f32_of_int (screenWidth st)))\<rfloor>"
        "\<lfloor>f32_val relX * of_int (screenWidth st)\<rfloor> \<le> tx"
        "tx \<le> \<lceil>f32_val relX * of_int (screenWidth st)\<rceil>"
    by blast
  from coordinate_product [OF y h] obtain ty
    where ty: "f32_to_int (f32_mul relY (f32_of_int (screenHeight st))) = Inr ty"
      and py: "ty = \<lfloor>f32_val (f32_mul relY (f32_of_int (screenHeight st)))\<rfloor>"
        "\<lfloor>f32_val relY * of_int (screenHeight st)\<rfloor> \<le> ty"
        "ty \<le> \<lceil>f32_val relY * of_int (screenHeight st)\<rceil>"
    by blast
  have "relativeToAbsolute st relX relY = Inr (tx, ty)"
    by (simp add: relativeToAbsolute_def tx ty)
  with px py show ?thesis by blast
qed

lemma in_unit_bounds:
  assumes "in_unit x" and "0 < w"
  shows "0 \<le> \<lfloor>f32_val x * of_int w\<rfloor>" and "\<lceil>f32_val x * of_int w\<rceil> \<le> w"
proof -
  from assms(1) obtain m e where x: "x = Fin m e" and x0: "0 \<le> dyadic m e" and x1: "dyadic m e \<le> 1"
    by (cases x) simp_all
  have "0 \<le> dyadic m e * of_int w" using x0 assms(2) by simp
  then show "0 \<le> \<lfloor>f32_val x * of_int w\<rfloor>" by (simp add: x)
  have "dyadic m e * of_int w \<le> of_int w"
    using x1 assms(2) by (simp add: mult_left_le_one_le)
  then show "\<lceil>f32_val x * of_int w\<rceil> \<le> w" by (simp add: x ceiling_le_iff)
qed

section \<open>Coordinate mapping\<close>

text \<open>
  Claim C1, as amended. For relative coordinates in \<open>[0.0, 1.0]\<close> and a profile whose
  width and height are positive and below \<open>2 ^ 24\<close>, \<open>relativeToAbsolute\<close> returns
  the floors of the single-precision products: each product is rounded to the nearest
  \<open>float\<close> (ties to even) before the cast discards its fraction. The result lies
  between the floor and the ceiling of the exact product \<open>x * w\<close>; it is the floor of
  the exact product unless the rounding carries the product up to the next integer.
  The function returns a pair and has no other effect.
\<close>

theorem relativeToAbsolute_floor_of_rounded_product:
  assumes "in_unit relX" and "in_unit relY"
    and "0 < screenWidth st" and "screenWidth st < 2 ^ 24"
    and "0 < screenHeight st" and "screenHeight st < 2 ^ 24"
  shows "\<exists>absX absY. relativeToAbsolute st relX relY = Inr (absX, absY)
           \<and> absX = \<lfloor>f32_val (f32_mul relX (f32_of_int (screenWidth st)))\<rfloor>
           \<and> absY = \<lfloor>f32_val (f32_mul relY (f32_of_int (screenHeight st)))\<rfloor>
           \<and> \<lfloor>f32_val relX * of_int (screenWidth st)\<rfloor> \<le> absX
           \<and> absX \<le> \<lceil>f32_val relX * of_int (screenWidth st)\<rceil>
           \<and> \<lfloor>f32_val relY * of_int (screenHeight st)\<rfloor> \<le> absY
           \<and> absY \<le> \<lceil>f32_val relY * of_int (screenHeight st)\<rceil>"
  using assms by (rule relativeToAbsolute_in_range)

text \<open>
  The \<open>float\<close> \<open>8474645 * 2 ^ -24\<close> (about 0.5051282) on the default profile: the exact
  product with 390 is \<open>197 - 2 ^ -23\<close>, which rounds to 197.0, so the result is 197
  and the floor of the exact product is 196.
\<close>

theorem relativeToAbsolute_floor_of_rounded_product_witness:
  "in_unit (Fin 8474645 (- 24)) \<and> in_unit lit_0_05
   \<and> relativeToAbsolute newHIDController (Fin 8474645 (- 24)) lit_0_05 = Inr (197, 42)
   \<and> \<lfloor>f32_val (f32_mul (Fin 8474645 (- 24)) (f32_of_int (screenWidth newHIDController)))\<rfloor> = 197
   \<and> \<lfloor>f32_val (f32_mul lit_0_05 (f32_of_int (screenHeight newHIDController)))\<rfloor> = 42
   \<and> \<lfloor>f32_val (Fin 8474645 (- 24)) * of_int (screenWidth newHIDController)\<rfloor> = 196
   \<and> \<lceil>f32_val (Fin 8474645 (- 24)) * of_int (screenWidth newHIDController)\<rceil> = 197"
proof -
  have x: "in_unit (Fin 8474645 (- 24))" and y: "in_unit lit_0_05"
    by (simp_all add: dyadic_def lit_0_05_def)
  have w: "0 < screenWidth newHIDController" "screenWidth newHIDController < 2 ^ 24"
    and h: "0 < screenHeight newHIDController" "screenHeight newHIDController < 2 ^ 24"
    by (simp_all add: newHIDController_def)
  have r: "relativeToAbsolute newHIDController (Fin 8474645 (- 24)) lit_0_05 = Inr (197, 42)"
    by code_simp
  from relativeToAbsolute_floor_of_rounded_product [OF x y w h] r
  have "\<lfloor>f32_val (f32_mul (Fin 8474645 (- 24)) (f32_of_int (screenWidth newHIDController)))\<rfloor> = 197"
    and "\<lfloor>f32_val (f32_mul lit_0_05 (f32_of_int (screenHeight newHIDController)))\<rfloor> = 42"
    by simp_all
  moreover have "\<lfloor>f32_val (Fin 8474645 (- 24)) * of_int (screenWidth newHIDController)\<rfloor> = 196"
    and "\<lceil>f32_val (Fin 8474645 (- 24)) * of_int (screenWidth newHIDController)\<rceil> = 197"
    by (simp_all add: dyadic_def newHIDController_def)
  ultimately show ?thesis using x y r by simp
qed

theorem relativeToAbsolute_exact_floor_counterexample:
  "valid_f32 (Fin 8474645 (- 24)) \<and> in_unit (Fin 8474645 (- 24))
   \<and> valid_f32 lit_0_05 \<and> in_unit lit_0_05
   \<and> relativeToAbsolute newHIDController (Fin 8474645 (- 24)) lit_0_05 = Inr (197, 42)
   \<and> \<lfloor>f32_val (Fin 8474645 (- 24)) * of_int (screenWidth newHIDController)\<rfloor> = 196
   \<and> relativeToAbsolute newHIDController (Fin 8474645 (- 24)) lit_0_05
       \<noteq> Inr (\<lfloor>f32_val (Fin 8474645 (- 24)) * of_int (screenWidth newHIDController)\<rfloor>,
              \<lfloor>f32_val lit_0_05 * of_int (screenHeight newHIDController)\<rfloor>)"
proof -
  have "valid_f32 (Fin 8474645 (- 24))" "valid_f32 lit_0_05"
    by (simp_all add: valid_f32_def lit_0_05_def)
  moreover have "in_unit (Fin 8474645 (- 24))" "in_unit lit_0_05"
    by (simp_all add: dyadic_def lit_0_05_def)
  moreover have "relativeToAbsolute newHIDController (Fin 8474645 (- 24)) lit_0_05 = Inr (197, 42)"
    by code_simp
  moreover have "\<lfloor>f32_val (Fin 8474645 (- 24)) * of_int (screenWidth newHIDController)\<rfloor> = 196"
    by (simp add: dyadic_def newHIDController_def)
  ultimately show ?thesis by simp
qed

section \<open>The cursor after a move\<close>

text \<open>
  Claim C2. When a recording whose last action is a Move has run, whatever the actions
  before it and the cursor position at the start, the cursor is exactly the absolute
  target that \<open>relativeToAbsolute\<close> computes for the coordinates of that Move: it is
  assigned from the target, not advanced by the ten truncated deltas, so no rounding
  error is carried from one action to the next.
\<close>

theorem move_sets_cursor_to_target:
  assumes "type a = MOVE"
    and "executeRecording st (actions @ [a]) = Inr (st', evs)"
  shows "relativeToAbsolute st (relativeX a) (relativeY a) = Inr (currentX st', currentY st')"
proof -
  from assms(2) obtain st1 ev1 ev2 where r: "executeRecording st actions = Inr (st1, ev1)"
    and a: "executeAction st1 a = Inr (st', ev2)"
    by (auto simp: executeRecording_append split: sum.splits)
  from a assms(1) obtain ev where "moveToPosition st1 (relativeX a) (relativeY a) = Inr (st', ev)"
    by (auto simp: executeAction_def split: sum.splits)
  then have "relativeToAbsolute st1 (relativeX a) (relativeY a) = Inr (currentX st', currentY st')"
    by (rule moveToPosition_cursor)
  with executeRecording_screen [OF r] show ?thesis
    by (simp add: relativeToAbsolute_cong [of st1 st])
qed

text \<open>
  An instance: a move to (0.85, 0.02) and then one to (0.5, 0.05). The deltas emitted add
  up to \<open>10 * 33 - 10 * 13 = 200\<close> horizontally, and the cursor is at 195.
\<close>

theorem move_sets_cursor_to_target_witness:
  "type (mkRecordedAction MOVE lit_0_5 lit_0_05) = MOVE
   \<and> executeRecording newHIDController
        ([mkRecordedAction MOVE lit_0_85 lit_0_02] @ [mkRecordedAction MOVE lit_0_5 lit_0_05])
      = Inr (newHIDController\<lparr>currentX := 195, currentY := 42\<rparr>,
             move_loop 10 10 331 16 @ [Sleep 100] @ move_loop 10 10 (- 136) 26 @ [Sleep 100])
   \<and> hid_events (move_loop 10 10 331 16 @ [Sleep 100] @ move_loop 10 10 (- 136) 26 @ [Sleep 100])
      = replicate 10 (sendMouseMove 33 1) @ replicate 10 (sendMouseMove (- 13) 2)
   \<and> relativeToAbsolute newHIDController lit_0_5 lit_0_05 = Inr (195, 42)"
proof -
  have h1: "type (mkRecordedAction MOVE lit_0_5 lit_0_05) = MOVE"
    by (simp add: mkRecordedAction_def)
  have h2: "executeRecording newHIDController
        ([mkRecordedAction MOVE lit_0_85 lit_0_02] @ [mkRecordedAction MOVE lit_0_5 lit_0_05])
      = Inr (newHIDController\<lparr>currentX := 195, currentY := 42\<rparr>,
             move_loop 10 10 331 16 @ [Sleep 100] @ move_loop 10 10 (- 136) 26 @ [Sleep 100])"
    by code_simp
  have h3: "hid_events (move_loop 10 10 331 16 @ [Sleep 100] @ move_loop 10 10 (- 136) 26 @ [Sleep 100])
      = replicate 10 (sendMouseMove 33 1) @ replicate 10 (sendMouseMove (- 13) 2)"
    by code_simp
  from move_sets_cursor_to_target [OF h1 h2]
  have "relativeToAbsolute newHIDController lit_0_5 lit_0_05 = Inr (195, 42)"
    by (simp add: mkRecordedAction_def)
  with h1 h2 h3 show ?thesis by simp
qed

section \<open>The events of a move\<close>

text \<open>
  Claim C3. A Move action that completes emits exactly ten relative-move reports, each
  followed by a delay of 10 ms and each carrying the delta to the target divided by ten
  with C++ integer division (\<open>sdiv\<close>, truncating towards zero). Nothing else is
  emitted: there is no absolute positioning event. When the target is the current
  cursor the ten reports carry the delta (0, 0).
\<close>

theorem move_emits_ten_relative_moves:
  assumes "type a = MOVE" and "executeAction st a = Inr (st', evs)"
    and "relativeToAbsolute st (relativeX a) (relativeY a) = Inr (tx, ty)"
  shows "evs = concat (replicate 10
             [sendMouseMove ((tx - currentX st) sdiv 10) ((ty - currentY st) sdiv 10), Sleep 10])
           @ [Sleep 100]
       \<and> hid_events evs =
           replicate 10 (sendMouseMove ((tx - currentX st) sdiv 10) ((ty - currentY st) sdiv 10))"
proof -
  from assms(1,2) obtain ev where m: "moveToPosition st (relativeX a) (relativeY a) = Inr (st', ev)"
    and evs: "evs = ev @ [Sleep 100]"
    by (auto simp: executeAction_def split: sum.splits)
  from m assms(3) have ev: "ev = move_loop 10 10 (tx - currentX st) (ty - currentY st)"
    by (elim moveToPosition_Inr) simp
  show ?thesis
    by (simp add: evs ev hid_events_move_loop) (rule move_loop_concat)
qed

theorem move_emits_ten_relative_moves_witness:
  "type moveNowhere = MOVE
   \<and> executeAction newHIDController moveNowhere
     = Inr (newHIDController,
            concat (replicate 10 [HIDMove 0 0 [0, 0, 0], Sleep 10]) @ [Sleep 100])
   \<and> relativeToAbsolute newHIDController (relativeX moveNowhere) (relativeY moveNowhere)
     = Inr (currentX newHIDController, currentY newHIDController)
   \<and> hid_events (concat (replicate 10 [HIDMove 0 0 [0, 0, 0], Sleep 10]) @ [Sleep 100])
     = replicate 10 (HIDMove 0 0 [0, 0, 0])"
proof -
  have h1: "type moveNowhere = MOVE"
    by code_simp
  have h2: "executeAction newHIDController moveNowhere
     = Inr (newHIDController,
            concat (replicate 10 [HIDMove 0 0 [0, 0, 0], Sleep 10]) @ [Sleep 100])"
    by code_simp
  have h3: "relativeToAbsolute newHIDController (relativeX moveNowhere) (relativeY moveNowhere)
     = Inr (0, 0)"
    by code_simp
  have h4: "sendMouseMove ((0 - currentX newHIDController) sdiv 10)
              ((0 - currentY newHIDController) sdiv 10) = HIDMove 0 0 [0, 0, 0]"
    by code_simp
  have h5: "currentX newHIDController = 0" "currentY newHIDController = 0"
    by (simp_all add: newHIDController_def)
  from move_emits_ten_relative_moves [OF h1 h2 h3]
  have "hid_events (concat (replicate 10 [HIDMove 0 0 [0, 0, 0], Sleep 10]) @ [Sleep 100])
     = replicate 10 (HIDMove 0 0 [0, 0, 0])"
    by (simp only: h4)
  with h1 h2 h3 show ?thesis
    by (simp only: h5 simp_thms)
qed

section \<open>The events of a drag\<close>

text \<open>
  Claim C4. A Drag action that completes emits, in this order: the ten move reports
  towards the origin, one button-down report, the ten move reports from the origin
  towards the destination, one button-up report (delays apart). It emits exactly one
  button-down and exactly one button-up, also when the destination is the origin.
\<close>

theorem drag_event_order:
  assumes "type a = DRAG" and "executeAction st a = Inr (st', evs)"
  shows "\<exists>ox oy tx ty.
           relativeToAbsolute st (relativeX a) (relativeY a) = Inr (ox, oy)
         \<and> relativeToAbsolute st (toRelativeX a) (toRelativeY a) = Inr (tx, ty)
         \<and> hid_events evs =
             replicate 10 (sendMouseMove ((ox - currentX st) sdiv 10) ((oy - currentY st) sdiv 10))
             @ [sendMouseButton True]
             @ replicate 10 (sendMouseMove ((tx - ox) sdiv 10) ((ty - oy) sdiv 10))
             @ [sendMouseButton False]
         \<and> length (filter (is_button True) evs) = 1
         \<and> length (filter (is_button False) evs) = 1"
proof -
  from assms obtain evs' where d: "drag st (relativeX a) (relativeY a) (toRelativeX a) (toRelativeY a) = Inr (st', evs')"
    and evs: "evs = evs' @ [Sleep 100]"
    by (auto simp: executeAction_def split: sum.splits)
  from d obtain st1 ev1 ev2 where m1: "moveToPosition st (relativeX a) (relativeY a) = Inr (st1, ev1)"
    and m2: "moveToPosition st1 (toRelativeX a) (toRelativeY a) = Inr (st', ev2)"
    and evs': "evs' = ev1 @ [Sleep 100, sendMouseButton True, Sleep 100] @ ev2
                 @ [Sleep 100, sendMouseButton False]"
    by (elim drag_Inr)
  from m1 obtain ox oy where o: "relativeToAbsolute st (relativeX a) (relativeY a) = Inr (ox, oy)"
    and st1: "st1 = st\<lparr>currentX := ox, currentY := oy\<rparr>"
    and ev1: "ev1 = move_loop 10 10 (ox - currentX st) (oy - currentY st)"
    by (elim moveToPosition_Inr)
  from m2 obtain tx ty where t1: "relativeToAbsolute st1 (toRelativeX a) (toRelativeY a) = Inr (tx, ty)"
    and ev2: "ev2 = move_loop 10 10 (tx - currentX st1) (ty - currentY st1)"
    by (elim moveToPosition_Inr)
  from t1 have t: "relativeToAbsolute st (toRelativeX a) (toRelativeY a) = Inr (tx, ty)"
    by (simp add: st1)
  have h: "hid_events evs =
             replicate 10 (sendMouseMove ((ox - currentX st) sdiv 10) ((oy - currentY st) sdiv 10))
             @ [sendMouseButton True]
             @ replicate 10 (sendMouseMove ((tx - ox) sdiv 10) ((ty - oy) sdiv 10))
             @ [sendMouseButton False]"
    by (simp add: evs evs' ev1 ev2 st1 hid_events_move_loop)
  have "filter (is_button b) evs = [sendMouseButton b]" for b
    unfolding filter_is_button_hid_events [of b evs, symmetric] h by auto
  then have "length (filter (is_button b) evs) = 1" for b
    by simp
  with o t h show ?thesis by blast
qed

theorem drag_event_order_witness:
  "type dragInPlace = DRAG
   \<and> executeAction newHIDController dragInPlace
     = Inr (newHIDController\<lparr>currentX := 195, currentY := 422\<rparr>,
            move_loop 10 10 195 422 @ [Sleep 100, sendMouseButton True, Sleep 100]
            @ move_loop 10 10 0 0 @ [Sleep 100, sendMouseButton False, Sleep 100])
   \<and> relativeToAbsolute newHIDController (relativeX dragInPlace) (relativeY dragInPlace)
     = relativeToAbsolute newHIDController (toRelativeX dragInPlace) (toRelativeY dragInPlace)
   \<and> length (filter (is_button True)
        (move_loop 10 10 195 422 @ [Sleep 100, sendMouseButton True, Sleep 100]
         @ move_loop 10 10 0 0 @ [Sleep 100, sendMouseButton False, Sleep 100])) = 1
   \<and> length (filter (is_button False)
        (move_loop 10 10 195 422 @ [Sleep 100, sendMouseButton True, Sleep 100]
         @ move_loop 10 10 0 0 @ [Sleep 100, sendMouseButton False, Sleep 100])) = 1"
proof -
  have h1: "type dragInPlace = DRAG"
    by (simp add: dragInPlace_def mkRecordedAction_def)
  have h2: "executeAction newHIDController dragInPlace
     = Inr (newHIDController\<lparr>currentX := 195, currentY := 422\<rparr>,
            move_loop 10 10 195 422 @ [Sleep 100, sendMouseButton True, Sleep 100]
            @ move_loop 10 10 0 0 @ [Sleep 100, sendMouseButton False, Sleep 100])"
    by code_simp
  have h3: "relativeToAbsolute newHIDController (relativeX dragInPlace) (relativeY dragInPlace)
     = relativeToAbsolute newHIDController (toRelativeX dragInPlace) (toRelativeY dragInPlace)"
    by (simp add: dragInPlace_def mkRecordedAction_def)
  from drag_event_order [OF h1 h2] h1 h2 h3 show ?thesis
    by blast
qed

section \<open>Key codes and typing\<close>

lemma typeText_append:
  "typeText (cs @ ds) = typeText cs @ typeText ds"
  by (induction cs) simp_all

lemma sendKeyPress_report:
  "sendKeyPress c =
     HIDType c (asciiToHIDKeycode c) [0, 0, asciiToHIDKeycode c, 0, 0, 0, 0, 0]
       [0, 0, 0, 0, 0, 0, 0, 0]"
  by (simp add: sendKeyPress_def Let_def)

lemma typeText_concat:
  "typeText t =
     concat (map (\<lambda>c. [HIDType c (asciiToHIDKeycode c)
                           [0, 0, asciiToHIDKeycode c, 0, 0, 0, 0, 0] [0, 0, 0, 0, 0, 0, 0, 0],
                         Sleep 50]) t)"
  by (induction t) (simp_all add: sendKeyPress_report)

lemma key_steps_typeText:
  "key_steps (typeText t) =
     concat (map (\<lambda>c. [KeyDown (asciiToHIDKeycode c), KeyUp (asciiToHIDKeycode c), Delay 50]) t)"
  by (induction t) (simp_all add: sendKeyPress_report)

lemma char_int_nat:
  "char_int c = (if (of_char c :: nat) < 128 then int (of_char c) else int (of_char c) - 256)"
proof -
  have "(of_char c :: int) = int (of_char c)"
    by (simp add: of_nat_of_char)
  then show ?thesis
    by (simp add: char_int_def)
qed

lemma char_eq_code:
  "c = CHR ''0'' \<longleftrightarrow> of_char c = (48::nat)"
  "c = CHR '' '' \<longleftrightarrow> of_char c = (32::nat)"
  "c = CHR 0x0A \<longleftrightarrow> of_char c = (10::nat)"
  using of_char_eq_iff [where ?'a = nat, of c "CHR ''0''"]
    of_char_eq_iff [where ?'a = nat, of c "CHR '' ''"]
    of_char_eq_iff [where ?'a = nat, of c "CHR 0x0A"]
  by simp_all

lemma asciiToHIDKeycode_code:
  "asciiToHIDKeycode c =
     (let n = of_char c :: nat
      in if 97 \<le> n \<and> n \<le> 122 then of_nat (4 + (n - 97))
         else if 65 \<le> n \<and> n \<le> 90 then of_nat (4 + (n - 65))
         else if 49 \<le> n \<and> n \<le> 57 then of_nat (30 + (n - 49))
         else if n = 48 then 39
         else if n = 32 then 44
         else if n = 10 then 40
         else 0)"
proof -
  have a: "char_int CHR ''a'' = 97" "char_int CHR ''z'' = 122" "char_int CHR ''A'' = 65"
    "char_int CHR ''Z'' = 90" "char_int CHR ''1'' = 49" "char_int CHR ''9'' = 57"
    by (simp_all add: char_int_def)
  show ?thesis
  proof (cases "(of_char c :: nat) < 128")
    case True
    then have "char_int c = int (of_char c)" by (simp add: char_int_nat)
    then show ?thesis
      by (auto simp: asciiToHIDKeycode_def a char_eq_code Let_def of_nat_diff)
  next
    case False
    then have "char_int c < 0"
      using nat_of_char_less_256 [of c] by (simp add: char_int_nat)
    with False show ?thesis
      by (simp add: asciiToHIDKeycode_def a char_eq_code Let_def)
  qed
qed

text \<open>
  Claim C5. \<open>asciiToHIDKeycode\<close> is a total function of the character alone. The
  letter number \<open>i\<close> (from 0) maps to \<open>4 + i\<close> in lower case and in upper case
  alike; the digit \<open>1 + j\<close> maps to \<open>30 + j\<close>; \<open>0\<close>, the space and the newline
  map to 39, 44 and 40; every other character maps to 0, the code of no key, and is no
  error. The report of a key press has modifier byte 0 (no shift) and the one key in
  byte 2. \<open>typeText\<close> handles every character of the text, whatever its code: the
  characters after an unmapped one are typed as well.
\<close>

theorem asciiToHIDKeycode_mapping:
  fixes i j :: nat
  shows "(i < 26 \<longrightarrow> asciiToHIDKeycode (char_of (97 + i)) = of_nat (4 + i)
                 \<and> asciiToHIDKeycode (char_of (65 + i)) = of_nat (4 + i))
   \<and> (j < 9 \<longrightarrow> asciiToHIDKeycode (char_of (49 + j)) = of_nat (30 + j))
   \<and> asciiToHIDKeycode CHR ''0'' = 39
   \<and> asciiToHIDKeycode CHR '' '' = 44
   \<and> asciiToHIDKeycode (CHR 0x0A) = 40
   \<and> (\<not> (97 \<le> (of_char c :: nat) \<and> (of_char c :: nat) \<le> 122)
      \<and> \<not> (65 \<le> (of_char c :: nat) \<and> (of_char c :: nat) \<le> 90)
      \<and> \<not> (48 \<le> (of_char c :: nat) \<and> (of_char c :: nat) \<le> 57)
      \<and> c \<noteq> CHR '' '' \<and> c \<noteq> CHR 0x0A
      \<longrightarrow> asciiToHIDKeycode c = 0)
   \<and> sendKeyPress c =
       HIDType c (asciiToHIDKeycode c) [0, 0, asciiToHIDKeycode c, 0, 0, 0, 0, 0]
         [0, 0, 0, 0, 0, 0, 0, 0]
   \<and> typeText (cs @ c # ds) = typeText cs @ [sendKeyPress c, Sleep 50] @ typeText ds"
proof -
  have letters: "asciiToHIDKeycode (char_of (97 + i)) = of_nat (4 + i)
                 \<and> asciiToHIDKeycode (char_of (65 + i)) = of_nat (4 + i)" if "i < 26"
    using that by (simp add: asciiToHIDKeycode_code)
  have digits: "asciiToHIDKeycode (char_of (49 + j)) = of_nat (30 + j)" if "j < 9"
    using that by (simp add: asciiToHIDKeycode_code)
  have fixed: "asciiToHIDKeycode CHR ''0'' = 39" "asciiToHIDKeycode CHR '' '' = 44"
    "asciiToHIDKeycode (CHR 0x0A) = 40"
    by (simp_all add: asciiToHIDKeycode_code)
  have other: "asciiToHIDKeycode c = 0"
    if "\<not> (97 \<le> (of_char c :: nat) \<and> (of_char c :: nat) \<le> 122)"
      "\<not> (65 \<le> (of_char c :: nat) \<and> (of_char c :: nat) \<le> 90)"
      "\<not> (48 \<le> (of_char c :: nat) \<and> (of_char c :: nat) \<le> 57)"
      "c \<noteq> CHR '' ''" "c \<noteq> CHR 0x0A"
    using that by (auto simp: asciiToHIDKeycode_code char_eq_code Let_def)
  show ?thesis
    using letters digits fixed other by (simp add: typeText_append sendKeyPress_report)
qed

theorem asciiToHIDKeycode_mapping_witness:
  "asciiToHIDKeycode CHR ''z'' = 29 \<and> asciiToHIDKeycode CHR ''Z'' = 29
   \<and> asciiToHIDKeycode CHR ''9'' = 38
   \<and> asciiToHIDKeycode CHR ''!'' = 0
   \<and> sendKeyPress CHR ''!'' =
       HIDType CHR ''!'' 0 [0, 0, 0, 0, 0, 0, 0, 0] [0, 0, 0, 0, 0, 0, 0, 0]
   \<and> typeText ''a!b'' = typeText ''a'' @ [sendKeyPress CHR ''!'', Sleep 50] @ typeText ''b''"
proof -
  note t = asciiToHIDKeycode_mapping [where i = 25 and j = 8 and c = "CHR ''!''"
      and cs = "''a''" and ds = "''b''"]
  have ch: "char_of (122::nat) = CHR ''z''" "char_of (90::nat) = CHR ''Z''"
    "char_of (57::nat) = CHR ''9''"
    by (simp_all add: char_of_eq_iff)
  from t have "asciiToHIDKeycode CHR ''z'' = 29" "asciiToHIDKeycode CHR ''Z'' = 29"
    "asciiToHIDKeycode CHR ''9'' = 38"
    by (simp_all add: ch)
  moreover from t have z: "asciiToHIDKeycode CHR ''!'' = 0"
    by simp
  moreover from t have "sendKeyPress CHR ''!'' =
       HIDType CHR ''!'' 0 [0, 0, 0, 0, 0, 0, 0, 0] [0, 0, 0, 0, 0, 0, 0, 0]"
    by (simp only: z)
  moreover from t
  have "typeText ''a!b'' = typeText ''a'' @ [sendKeyPress CHR ''!'', Sleep 50] @ typeText ''b''"
    by simp
  ultimately show ?thesis by simp
qed

text \<open>
  Claim C6, as amended. A Type action handles the characters of its text in order. For
  each character one \<open>sendKeyPress\<close> call builds the press report, with the character's
  key code as its only key, and at once, with no delay between them, the release report
  with no key; the fixed delay of 50 ms follows the call, before the next character.
  No report holds more than one key. The action leaves the controller unchanged.
\<close>

theorem typeText_events:
  "typeText t =
     concat (map (\<lambda>c. [HIDType c (asciiToHIDKeycode c)
                           [0, 0, asciiToHIDKeycode c, 0, 0, 0, 0, 0] [0, 0, 0, 0, 0, 0, 0, 0],
                         Sleep 50]) t)
   \<and> key_steps (typeText t) =
     concat (map (\<lambda>c. [KeyDown (asciiToHIDKeycode c), KeyUp (asciiToHIDKeycode c), Delay 50]) t)
   \<and> executeAction st (a\<lparr>type := TYPE'\<rparr>) = Inr (st, typeText (text a) @ [Sleep 100])"
  by (intro conjI) (rule typeText_concat, rule key_steps_typeText, simp add: executeAction_def)

text \<open>
  The text \<open>a\<close>: the delay follows the release, where the specification puts it between
  the key-down and the key-up.
\<close>

theorem typeText_delay_counterexample:
  "typeText ''a'' =
     [HIDType CHR ''a'' 4 [0, 0, 4, 0, 0, 0, 0, 0] [0, 0, 0, 0, 0, 0, 0, 0], Sleep 50]
   \<and> key_steps (typeText ''a'') = [KeyDown 4, KeyUp 4, Delay 50]
   \<and> Type_spec ''a'' = [KeyDown 4, Delay 50, KeyUp 4]
   \<and> key_steps (typeText ''a'') \<noteq> Type_spec ''a''"
  by code_simp

section \<open>No emission can fail\<close>

lemma length_hid_events_move_loop [simp]:
  "length (hid_events (move_loop n steps dx dy)) = n"
  by (simp add: hid_events_move_loop)

lemma length_hid_events_typeText [simp]:
  "length (hid_events (typeText t)) = length t"
  by (induction t) simp_all

lemma hid_events_click [simp]:
  "hid_events click = [sendMouseButton True, sendMouseButton False]"
  by (simp add: click_def)

lemma executeAction_emits:
  assumes "executeAction st a = Inr (st', evs)"
  shows "length (hid_events evs) = action_emits a"
proof (cases "type a")
  case MOVE
  with assms obtain ev where "moveToPosition st (relativeX a) (relativeY a) = Inr (st', ev)"
    and "evs = ev @ [Sleep 100]"
    by (auto simp: executeAction_def split: sum.splits)
  then show ?thesis
    using MOVE by (elim moveToPosition_Inr) (simp add: action_emits_def)
next
  case CLICK
  with assms obtain ev where "moveToPosition st (relativeX a) (relativeY a) = Inr (st', ev)"
    and "evs = ev @ [Sleep 100] @ click @ [Sleep 100]"
    by (auto simp: executeAction_def split: sum.splits)
  then show ?thesis
    using CLICK by (elim moveToPosition_Inr) (simp add: action_emits_def)
next
  case DRAG
  with assms obtain ev where d: "drag st (relativeX a) (relativeY a) (toRelativeX a) (toRelativeY a) = Inr (st', ev)"
    and evs: "evs = ev @ [Sleep 100]"
    by (auto simp: executeAction_def split: sum.splits)
  from d obtain st1 ev1 ev2 where m1: "moveToPosition st (relativeX a) (relativeY a) = Inr (st1, ev1)"
    and m2: "moveToPosition st1 (toRelativeX a) (toRelativeY a) = Inr (st', ev2)"
    and ev: "ev = ev1 @ [Sleep 100, sendMouseButton True, Sleep 100] @ ev2
                 @ [Sleep 100, sendMouseButton False]"
    by (elim drag_Inr)
  from m1 have "length (hid_events ev1) = 10"
    by (elim moveToPosition_Inr) simp
  moreover from m2 have "length (hid_events ev2) = 10"
    by (elim moveToPosition_Inr) simp
  ultimately show ?thesis
    using DRAG by (simp add: evs ev action_emits_def)
next
  case WAIT
  with assms show ?thesis by (auto simp: executeAction_def action_emits_def)
next
  case TYPE'
  with assms show ?thesis by (auto simp: executeAction_def action_emits_def)
qed

lemma executeRecording_emits:
  "executeRecording st actions = Inr (st', evs) \<Longrightarrow>
   length (hid_events evs) = sum_list (map action_emits actions)"
proof (induction actions arbitrary: st st' evs)
  case Nil
  then show ?case by simp
next
  case (Cons a actions)
  from Cons.prems obtain st1 ev1 ev2 where a: "executeAction st a = Inr (st1, ev1)"
    and r: "executeRecording st1 actions = Inr (st', ev2)" and evs: "evs = ev1 @ ev2"
    by (auto split: sum.splits)
  from executeAction_emits [OF a] Cons.IH [OF r] show ?case by (simp add: evs)
qed

lemma drag_cursor:
  assumes "drag st fromX fromY toX toY = Inr (st', evs)"
  shows "relativeToAbsolute st toX toY = Inr (currentX st', currentY st')"
proof -
  from assms obtain st1 ev1 ev2 where m1: "moveToPosition st fromX fromY = Inr (st1, ev1)"
    and m2: "moveToPosition st1 toX toY = Inr (st', ev2)"
    by (elim drag_Inr)
  from moveToPosition_cursor [OF m2] moveToPosition_screen [OF m1] show ?thesis
    by (simp add: relativeToAbsolute_cong [of st1 st])
qed

text \<open>
  Claim C7, as amended. No emission can fail: the \<open>send\<close> functions return nothing and
  \<open>executeRecording\<close> checks nothing, so there is no aborted playback and no failure
  tagged with an action index. A playback that returns has emitted every event of every
  action: ten for a Move, twelve for a Click, twenty-two for a Drag, one for each
  character of a Type, none for a Wait. A Drag always makes its destination move after
  the press, and the cursor is then the destination's target.
\<close>

theorem executeRecording_runs_every_action:
  "(executeRecording st actions = Inr (st', evs) \<longrightarrow>
      length (hid_events evs) = sum_list (map action_emits actions))
   \<and> (type a = DRAG \<and> executeAction st a = Inr (st1, ev1) \<longrightarrow>
      relativeToAbsolute st (toRelativeX a) (toRelativeY a) = Inr (currentX st1, currentY st1))"
proof (intro conjI impI)
  assume "executeRecording st actions = Inr (st', evs)"
  then show "length (hid_events evs) = sum_list (map action_emits actions)"
    by (rule executeRecording_emits)
next
  assume "type a = DRAG \<and> executeAction st a = Inr (st1, ev1)"
  then obtain ev where "drag st (relativeX a) (relativeY a) (toRelativeX a) (toRelativeY a) = Inr (st1, ev)"
    by (auto simp: executeAction_def split: sum.splits)
  then show "relativeToAbsolute st (toRelativeX a) (toRelativeY a) = Inr (currentX st1, currentY st1)"
    by (rule drag_cursor)
qed

theorem executeRecording_runs_every_action_witness:
  "executeRecording newHIDController [dragAcross, typeHi]
     = Inr (newHIDController\<lparr>currentX := 390, currentY := 844\<rparr>,
            move_loop 10 10 195 422 @ [Sleep 100, sendMouseButton True, Sleep 100]
            @ move_loop 10 10 195 422 @ [Sleep 100, sendMouseButton False, Sleep 100]
            @ typeText ''Hi!'' @ [Sleep 100])
   \<and> length (hid_events
        (move_loop 10 10 195 422 @ [Sleep 100, sendMouseButton True, Sleep 100]
            @ move_loop 10 10 195 422 @ [Sleep 100, sendMouseButton False, Sleep 100]
            @ typeText ''Hi!'' @ [Sleep 100])) = 25
   \<and> type dragAcross = DRAG
   \<and> executeAction newHIDController dragAcross
     = Inr (newHIDController\<lparr>currentX := 390, currentY := 844\<rparr>,
            move_loop 10 10 195 422 @ [Sleep 100, sendMouseButton True, Sleep 100]
            @ move_loop 10 10 195 422 @ [Sleep 100, sendMouseButton False, Sleep 100])
   \<and> relativeToAbsolute newHIDController (toRelativeX dragAcross) (toRelativeY dragAcross)
     = Inr (390, 844)"
proof -
  have h1: "executeRecording newHIDController [dragAcross, typeHi]
     = Inr (newHIDController\<lparr>currentX := 390, currentY := 844\<rparr>,
            move_loop 10 10 195 422 @ [Sleep 100, sendMouseButton True, Sleep 100]
            @ move_loop 10 10 195 422 @ [Sleep 100, sendMouseButton False, Sleep 100]
            @ typeText ''Hi!'' @ [Sleep 100])"
    by code_simp
  have h2: "sum_list (map action_emits [dragAcross, typeHi]) = 25"
    by code_simp
  have h3: "type dragAcross = DRAG"
    by code_simp
  have h4: "executeAction newHIDController dragAcross
     = Inr (newHIDController\<lparr>currentX := 390, currentY := 844\<rparr>,
            move_loop 10 10 195 422 @ [Sleep 100, sendMouseButton True, Sleep 100]
            @ move_loop 10 10 195 422 @ [Sleep 100, sendMouseButton False, Sleep 100])"
    by code_simp
  have c1: "length (hid_events
        (move_loop 10 10 195 422 @ [Sleep 100, sendMouseButton True, Sleep 100]
            @ move_loop 10 10 195 422 @ [Sleep 100, sendMouseButton False, Sleep 100]
            @ typeText ''Hi!'' @ [Sleep 100])) = sum_list (map action_emits [dragAcross, typeHi])"
    by (rule executeRecording_runs_every_action [THEN conjunct1, rule_format, OF h1])
  have c2: "relativeToAbsolute newHIDController (toRelativeX dragAcross) (toRelativeY dragAcross)
     = Inr (currentX (newHIDController\<lparr>currentX := 390, currentY := 844\<rparr>),
            currentY (newHIDController\<lparr>currentX := 390, currentY := 844\<rparr>))"
    by (rule executeRecording_runs_every_action [THEN conjunct2, rule_format, OF conjI, OF h3 h4])
  from h1 h3 h4 c1 c2 show ?thesis
    by (simp only: h2) simp
qed

text \<open>
  A drag from (0.5, 0.5) to (1.0, 1.0) on a transport that would fail the press: the ten
  moves to the destination and the release follow the press all the same, and the
  cursor ends on the destination (390, 844), not on the origin (195, 422).
\<close>

theorem executeRecording_no_abort_counterexample:
  "executeRecording newHIDController [dragAcross]
     = Inr (newHIDController\<lparr>currentX := 390, currentY := 844\<rparr>,
            concat (replicate 10 [HIDMove 19 42 [0, 19, 42], Sleep 10])
            @ [Sleep 100, HIDClick True [1, 0, 0], Sleep 100]
            @ concat (replicate 10 [HIDMove 19 42 [0, 19, 42], Sleep 10])
            @ [Sleep 100, HIDClick False [0, 0, 0], Sleep 100])
   \<and> \<not> spec_stops_at_failure (is_button True)
        (concat (replicate 10 [HIDMove 19 42 [0, 19, 42], Sleep 10])
            @ [Sleep 100, HIDClick True [1, 0, 0], Sleep 100]
            @ concat (replicate 10 [HIDMove 19 42 [0, 19, 42], Sleep 10])
            @ [Sleep 100, HIDClick False [0, 0, 0], Sleep 100])
   \<and> relativeToAbsolute newHIDController (relativeX dragAcross) (relativeY dragAcross)
     = Inr (195, 422)
   \<and> (currentX (newHIDController\<lparr>currentX := 390, currentY := 844\<rparr>),
       currentY (newHIDController\<lparr>currentX := 390, currentY := 844\<rparr>)) \<noteq> (195, 422)"
  by code_simp

section \<open>The home button recording\<close>

lemma home_button_literals:
  "f32_val lit_0_5 = 5 / 10"
  "\<bar>f32_val lit_0_05 - 5 / 100\<bar> \<le> 1 / 2 ^ 29"
  "\<bar>f32_val lit_0_85 - 85 / 100\<bar> \<le> 1 / 2 ^ 25"
  "\<bar>f32_val lit_0_02 - 2 / 100\<bar> \<le> 1 / 2 ^ 30"
  "f32_val lit_1_0 = 1"
  by (simp_all add: lit_0_5_def lit_0_05_def lit_0_85_def lit_0_02_def lit_1_0_def dyadic_def)

text \<open>
  Claim C8. On the default 390 by 844 profile, from the cursor (0, 0), the recording of
  \<open>getHomeButtonRecording\<close> sets the cursor to (195, 42) with its first action (ten
  moves of (19, 4)), waits 500 ms, moves towards (331, 16) (ten moves of (13, -2)),
  presses and releases the button, waits 1000 ms, and ends with the cursor at (331, 16).
\<close>

theorem home_button_recording_run:
  "executeRecording newHIDController (take 1 getHomeButtonRecording)
     = Inr (newHIDController\<lparr>currentX := 195, currentY := 42\<rparr>,
            concat (replicate 10 [HIDMove 19 4 [0, 19, 4], Sleep 10]) @ [Sleep 100])
   \<and> executeRecording newHIDController getHomeButtonRecording
     = Inr (newHIDController\<lparr>currentX := 331, currentY := 16\<rparr>,
            concat (replicate 10 [HIDMove 19 4 [0, 19, 4], Sleep 10]) @ [Sleep 100]
            @ [Sleep 500, Sleep 100]
            @ concat (replicate 10 [HIDMove 13 (- 2) [0, 13, 254], Sleep 10])
            @ [Sleep 100, HIDClick True [1, 0, 0], Sleep 50, HIDClick False [0, 0, 0], Sleep 100]
            @ [Sleep 1000, Sleep 100])"
  by code_simp

section \<open>Playback of an empty recording\<close>

text \<open>
  Claim C9. Replaying an empty recording emits no event of any kind (not even a delay) and
  returns the controller as it was, so the cursor position is unchanged.
\<close>

theorem executeRecording_empty: "executeRecording st [] = Inr (st, [])"
  by simp

section \<open>The deltas of a move report\<close>

lemma low_byte_of_int: "low_byte d = word_of_int d"
proof -
  have "(word_of_int d :: 32 word) AND 0xFF = take_bit 8 (word_of_int d)"
    by (simp add: take_bit_eq_mask mask_eq_exp_minus_1)
  then have "low_byte d = ucast (take_bit 8 (word_of_int d :: 32 word))"
    by (simp add: low_byte_def)
  also have "\<dots> = word_of_int d"
    by (rule bit_word_eqI) (auto simp: bit_simps)
  finally show ?thesis .
qed

lemma low_byte_sint: "- 128 \<le> d \<Longrightarrow> d \<le> 127 \<Longrightarrow> sint (low_byte d) = d"
  by (simp add: low_byte_of_int sint_sbintrunc' signed_take_bit_int_eq_self)

lemma sdiv_10_bound:
  assumes "\<bar>d\<bar> \<le> b"
  shows "\<bar>d sdiv 10\<bar> \<le> b div (10::int)"
proof -
  have "\<bar>d sdiv 10\<bar> = \<bar>d\<bar> div 10"
    by (cases "d = 0") (simp_all add: signed_divide_int_def abs_mult abs_sgn_eq)
  also have "\<dots> \<le> b div 10"
    using assms by (rule zdiv_mono1) simp
  finally show ?thesis .
qed

lemma delta_preserved_sendMouseMove:
  assumes "\<bar>dx\<bar> \<le> 127" and "\<bar>dy\<bar> \<le> 127"
  shows "delta_preserved (sendMouseMove dx dy)"
  using assms by (simp add: sendMouseMove_def low_byte_sint abs_le_iff)

lemma list_all_move_loop:
  "delta_preserved (sendMouseMove (dx sdiv steps) (dy sdiv steps)) \<Longrightarrow>
   list_all delta_preserved (move_loop n steps dx dy)"
  by (induction n) simp_all

lemma moveToPosition_on_screen:
  assumes st: "on_screen st" and x: "in_unit relX" and y: "in_unit relY"
  shows "\<exists>st' evs. moveToPosition st relX relY = Inr (st', evs)
           \<and> on_screen st' \<and> list_all delta_preserved evs"
proof -
  from st have w: "screenWidth st = 390" and h: "screenHeight st = 844"
    and c: "0 \<le> currentX st" "currentX st \<le> 390" "0 \<le> currentY st" "currentY st \<le> 844"
    by (simp_all add: on_screen_def)
  have pos: "0 < screenWidth st" "screenWidth st < 2 ^ 24"
    "0 < screenHeight st" "screenHeight st < 2 ^ 24"
    by (simp_all add: w h)
  from relativeToAbsolute_in_range [OF x y pos] obtain tx ty
    where r: "relativeToAbsolute st relX relY = Inr (tx, ty)"
      and lx: "\<lfloor>f32_val relX * of_int (screenWidth st)\<rfloor> \<le> tx"
      and ux: "tx \<le> \<lceil>f32_val relX * of_int (screenWidth st)\<rceil>"
      and ly: "\<lfloor>f32_val relY * of_int (screenHeight st)\<rfloor> \<le> ty"
      and uy: "ty \<le> \<lceil>f32_val relY * of_int (screenHeight st)\<rceil>"
    by blast
  note bx = in_unit_bounds [OF x pos(1)] and by' = in_unit_bounds [OF y pos(3)]
  have t: "0 \<le> tx" "tx \<le> 390" "0 \<le> ty" "ty \<le> 844"
    using order_trans [OF bx(1) lx] order_trans [OF ux bx(2)]
      order_trans [OF by'(1) ly] order_trans [OF uy by'(2)]
    by (simp_all only: w h)
  define dx where "dx = tx - currentX st"
  define dy where "dy = ty - currentY st"
  have d: "\<bar>dx\<bar> \<le> 390" "\<bar>dy\<bar> \<le> 844"
    using t c by (simp_all add: dx_def dy_def)
  then have ok: "int_ok dx" "int_ok dy"
    by (auto simp: int_ok_def abs_le_iff)
  from sdiv_10_bound [OF d(1)] sdiv_10_bound [OF d(2)]
  have "\<bar>dx sdiv 10\<bar> \<le> 127" "\<bar>dy sdiv 10\<bar> \<le> 127"
    by simp_all
  then have "list_all delta_preserved (move_loop 10 10 dx dy)"
    by (intro list_all_move_loop delta_preserved_sendMouseMove)
  moreover have "moveToPosition st relX relY
                   = Inr (st\<lparr>currentX := tx, currentY := ty\<rparr>, move_loop 10 10 dx dy)"
    using ok by (simp add: moveToPosition_def r int_sub_def dx_def dy_def)
  moreover have "on_screen (st\<lparr>currentX := tx, currentY := ty\<rparr>)"
    using t by (simp add: on_screen_def w h)
  ultimately show ?thesis by blast
qed

lemma list_all_typeText: "list_all delta_preserved (typeText t)"
  by (induction t) (simp_all add: sendKeyPress_def Let_def)

lemma executeAction_on_screen:
  assumes st: "on_screen st" and a: "coords_in_unit a"
  shows "\<exists>st' evs. executeAction st a = Inr (st', evs)
           \<and> on_screen st' \<and> list_all delta_preserved evs"
proof (cases "type a")
  case MOVE
  with a have "in_unit (relativeX a)" "in_unit (relativeY a)"
    by (simp_all add: coords_in_unit_def)
  from moveToPosition_on_screen [OF st this] MOVE show ?thesis
    by (auto simp: executeAction_def)
next
  case CLICK
  with a have "in_unit (relativeX a)" "in_unit (relativeY a)"
    by (simp_all add: coords_in_unit_def)
  from moveToPosition_on_screen [OF st this] CLICK show ?thesis
    by (auto simp: executeAction_def click_def sendMouseButton_def)
next
  case DRAG
  with a have o: "in_unit (relativeX a)" "in_unit (relativeY a)"
    and t: "in_unit (toRelativeX a)" "in_unit (toRelativeY a)"
    by (simp_all add: coords_in_unit_def)
  from moveToPosition_on_screen [OF st o] obtain st1 ev1
    where m1: "moveToPosition st (relativeX a) (relativeY a) = Inr (st1, ev1)"
      and s1: "on_screen st1" and e1: "list_all delta_preserved ev1"
    by blast
  from moveToPosition_on_screen [OF s1 t] obtain st2 ev2
    where m2: "moveToPosition st1 (toRelativeX a) (toRelativeY a) = Inr (st2, ev2)"
      and s2: "on_screen st2" and e2: "list_all delta_preserved ev2"
    by blast
  show ?thesis
    using DRAG m1 m2 s2 e1 e2
    by (simp add: executeAction_def drag_def sendMouseButton_def)
next
  case WAIT
  with st show ?thesis by (simp add: executeAction_def)
next
  case TYPE'
  with st show ?thesis by (simp add: executeAction_def list_all_typeText)
qed

lemma executeRecording_on_screen:
  "on_screen st \<Longrightarrow> list_all coords_in_unit actions \<Longrightarrow>
   \<exists>st' evs. executeRecording st actions = Inr (st', evs)
     \<and> on_screen st' \<and> list_all delta_preserved evs"
proof (induction actions arbitrary: st)
  case Nil
  then show ?case by simp
next
  case (Cons a actions)
  from Cons.prems have a: "coords_in_unit a" and as: "list_all coords_in_unit actions"
    by simp_all
  from executeAction_on_screen [OF Cons.prems(1) a] obtain st1 ev1
    where 1: "executeAction st a = Inr (st1, ev1)" "on_screen st1" "list_all delta_preserved ev1"
    by blast
  from Cons.IH [OF 1(2) as] obtain st2 ev2
    where 2: "executeRecording st1 actions = Inr (st2, ev2)" "on_screen st2"
      "list_all delta_preserved ev2"
    by blast
  from 1 2 show ?case by simp
qed

text \<open>
  Claim C10. A recording whose coordinates are all in \<open>[0.0, 1.0]\<close>, played on the
  default profile from the cursor (0, 0), runs to its end, and every delta passed to
  \<open>sendMouseMove\<close> lies in \<open>[-127, 127]\<close>: the bytes \<open>dx & 0xFF\<close> and
  \<open>dy & 0xFF\<close> of the report, read as \<open>int8\<close>, are the deltas themselves.
\<close>

theorem sub_step_deltas_fit_int8:
  assumes "list_all coords_in_unit actions"
  shows "\<exists>st' evs. executeRecording newHIDController actions = Inr (st', evs)
           \<and> list_all delta_preserved evs"
proof -
  have "on_screen newHIDController"
    by (simp add: on_screen_def newHIDController_def)
  from executeRecording_on_screen [OF this assms] show ?thesis by blast
qed

theorem sub_step_deltas_fit_int8_witness:
  "list_all coords_in_unit getHomeButtonRecording
   \<and> (\<exists>st' evs. executeRecording newHIDController getHomeButtonRecording = Inr (st', evs)
         \<and> list_all delta_preserved evs)
   \<and> delta_preserved (HIDMove 13 (- 2) [0, 13, 254])
   \<and> \<not> delta_preserved (HIDMove 200 0 [0, 200, 0])"
proof -
  have h: "list_all coords_in_unit getHomeButtonRecording"
    by (simp add: getHomeButtonRecording_def coords_in_unit_def mkRecordedAction_def
        lit_0_5_def lit_0_05_def lit_0_85_def lit_0_02_def dyadic_def)
  have "\<exists>st' evs. executeRecording newHIDController getHomeButtonRecording = Inr (st', evs)
         \<and> list_all delta_preserved evs"
    using h by (rule sub_step_deltas_fit_int8)
  with h show ?thesis by simp
qed

end
